theory Spec2Isabelle
  imports Main "HOL-Library.Word"
begin

unbundle bit_operations_syntax

section \<open>Kademlia addresses (swarm/network/kademlia/address.go)\<close>

subsection \<open>Data model\<close>

text \<open>
  \<^verbatim>\<open>type Address common.Hash\<close> is a Go array of bytes. A byte is an \<open>8 word\<close>; an
  address is the list of its bytes, index 0 first. Go's array type fixes the length, so
  the functions below are only ever called on lists of that length (\<open>wf_Address\<close>);
  reads \<open>a[i]\<close> under a \<open>range\<close> or \<open>i < len\<close> loop are then in range by typing.
  An index that the code computes (\<open>addr[pos]\<close>) is checked in the model, and the
  run-time panic of Go is the value \<open>Inl IndexOutOfRange\<close>.

  Go's \<open>int\<close> is modelled by \<open>int\<close>: the only arithmetic on it is comparison,
  division and remainder by 8 and \<open>i*8 + j\<close> with \<open>i \<le> 32\<close>, none of which overflows.
\<close>

type_synonym byte = "8 word"

type_synonym Address = "byte list"

definition HashLength :: nat where
  \<comment> \<open>Modelled from the spec: \<open>common.Hash\<close> is declared outside this file; the
      spec gives N = 32 bytes.\<close>
  "HashLength = 32"

definition wf_Address :: "Address \<Rightarrow> bool" where
  "wf_Address a = (length a = HashLength)"

datatype panic = IndexOutOfRange | SliceBoundsOutOfRange

text \<open>Go's \<open>/\<close> and \<open>%\<close> on integers truncate towards zero.\<close>

definition go_quot :: "int \<Rightarrow> int \<Rightarrow> int" where
  "go_quot a b = (if (a < 0) = (b < 0) then \<bar>a\<bar> div \<bar>b\<bar> else - (\<bar>a\<bar> div \<bar>b\<bar>))"

definition go_rem :: "int \<Rightarrow> int \<Rightarrow> int" where
  "go_rem a b = a - go_quot a b * b"

text \<open>
  The random byte source. \<open>rand.Intn(255)\<close> reads a global generator; the model takes
  the sequence of bytes that the successive calls \<open>byte(rand.Intn(255))\<close> return, and a
  counter of the calls made so far, which every drawing function returns updated. The
  same shape serves the closure \<open>f func() byte\<close> of \<open>CommonBitsAddrF\<close>: its \<open>k\<close>-th
  call returns \<open>f k\<close>.
\<close>

type_synonym byte_source = "nat \<Rightarrow> byte"

subsection \<open>proximity\<close>

text \<open>
  The inner loop \<^verbatim>\<open>for j := 0; j < 8; j++ { if (oxo>>uint8(7-j))&0x01 != 0 { return i*8 + j } }\<close>:
  \<open>Some j\<close> when it returns at \<open>j\<close>, \<open>None\<close> when it falls through.
\<close>

function bit_scan :: "byte \<Rightarrow> nat \<Rightarrow> nat option" where
  "bit_scan oxo j =
     (if j < 8 then
        (if (drop_bit (7 - j) oxo) AND 1 \<noteq> 0 then Some j else bit_scan oxo (j + 1))
      else None)"
  by pat_completeness auto
termination
  by (relation "measure (\<lambda>(oxo, j). 8 - j)") auto

declare bit_scan.simps [simp del]

function proximity_from :: "Address \<Rightarrow> Address \<Rightarrow> nat \<Rightarrow> int" where
  "proximity_from one other i =
     (if i < length one then
        (case bit_scan (one ! i XOR other ! i) 0 of
           Some j \<Rightarrow> int (i * 8 + j)
         | None \<Rightarrow> proximity_from one other (i + 1))
      else int (length one * 8))"
  by pat_completeness auto
termination
  by (relation "measure (\<lambda>(one, other, i). length one - i)") auto

declare proximity_from.simps [simp del]

definition proximity :: "Address \<Rightarrow> Address \<Rightarrow> int" where
  "proximity one other = proximity_from one other 0"

subsection \<open>ProxCmp\<close>

function ProxCmp_from :: "Address \<Rightarrow> Address \<Rightarrow> Address \<Rightarrow> nat \<Rightarrow> int" where
  "ProxCmp_from target a b i =
     (if i < length target then
        (let da = a ! i XOR target ! i;
             db = b ! i XOR target ! i
         in if da > db then 1
            else if da < db then - 1
            else ProxCmp_from target a b (i + 1))
      else 0)"
  by pat_completeness auto
termination
  by (relation "measure (\<lambda>(target, a, b, i). length target - i)") auto

declare ProxCmp_from.simps [simp del]

definition ProxCmp :: "Address \<Rightarrow> Address \<Rightarrow> Address \<Rightarrow> int" where
  "ProxCmp target a b = ProxCmp_from target a b 0"

subsection \<open>RandomAddressAt\<close>

text \<open>
  \<^verbatim>\<open>for j := 0; j <= trans; j++ { transbytea |= 1 << uint8(7-j) }\<close>. The source's
  variable \<open>trans\<close> is written \<open>tr\<close> throughout (\<open>trans\<close> is a constant of HOL).
\<close>

function transbytea_loop :: "nat \<Rightarrow> nat \<Rightarrow> byte \<Rightarrow> byte" where
  "transbytea_loop tr j transbytea =
     (if j \<le> tr then transbytea_loop tr (j + 1) (transbytea OR push_bit (7 - j) 1)
      else transbytea)"
  by pat_completeness auto
termination
  by (relation "measure (\<lambda>(tr, j, t). Suc tr - j)") auto

declare transbytea_loop.simps [simp del]

text \<open>
  \<^verbatim>\<open>for i := pos + 1; i < len(addr); i++ { addr[i] = f() }\<close>, the closing loop of both
  \<open>RandomAddressAt\<close> (with \<open>f = byte(rand.Intn(255))\<close>) and \<open>CommonBitsAddrF\<close>.
  \<open>n\<close> counts the calls of \<open>f\<close> made so far.
\<close>

function fill_loop :: "byte_source \<Rightarrow> Address \<Rightarrow> nat \<Rightarrow> nat \<Rightarrow> Address \<times> nat" where
  "fill_loop f addr i n =
     (if i < length addr then fill_loop f (addr[i := f n]) (i + 1) (n + 1)
      else (addr, n))"
  by pat_completeness auto
termination
  by (relation "measure (\<lambda>(f, addr, i, n). length addr - i)") auto

declare fill_loop.simps [simp del]

text \<open>
  \<open>n\<close> is the number of random bytes drawn before the call; the result carries the
  number drawn after it. Inside \<open>prox >= 0\<close> the remainder \<open>trans = prox % 8\<close> lies in
  \<open>0..7\<close>, so the loop bound and the shift counts \<open>uint8(7-j)\<close>, \<open>uint8(7-trans)\<close>
  are the natural numbers written here. \<open>var pos int\<close> is 0 when \<open>prox < 0\<close>.
\<close>

definition RandomAddressAt ::
  "byte_source \<Rightarrow> nat \<Rightarrow> Address \<Rightarrow> int \<Rightarrow> panic + (Address \<times> nat)" where
  "RandomAddressAt rnd n self prox =
     (if prox \<ge> 0 then
        (let pos = go_quot prox 8;
             tr = go_rem prox 8;
             transbytea = transbytea_loop (nat tr) 0 0;
             flipbyte = push_bit (nat (7 - tr)) (1 :: byte);
             transbyteb = transbytea XOR 255;
             randbyte = rnd n
         in if 0 \<le> pos \<and> pos < int (length self) then
              Inr (fill_loop rnd
                     (self[nat pos :=
                        ((self ! nat pos AND transbytea) XOR flipbyte) OR (randbyte AND transbyteb)])
                     (nat pos + 1) (n + 1))
            else Inl IndexOutOfRange)
      else Inr (fill_loop rnd self (0 + 1) n))"

definition zero_Address :: Address where
  \<comment> \<open>\<open>Address{}\<close>\<close>
  "zero_Address = replicate HashLength 0"

definition RandomAddress :: "byte_source \<Rightarrow> nat \<Rightarrow> panic + (Address \<times> nat)" where
  "RandomAddress rnd n = RandomAddressAt rnd n zero_Address (- 1)"

subsection \<open>CommonBitsAddrF and KeyRange\<close>

definition CommonBitsAddrF ::
  "Address \<Rightarrow> Address \<Rightarrow> byte_source \<Rightarrow> nat \<Rightarrow> int \<Rightarrow> panic + (Address \<times> nat)" where
  "CommonBitsAddrF self other f n p =
     (let prox0 = proximity self other;
          prox = (if p \<le> prox0 then p else prox0);
          pos = go_quot prox 8;
          tr = (word_of_int (go_rem prox 8) :: byte);
          transbytea0 = (if p > prox then 0x7f else 0xff :: byte);
          transbytea = drop_bit (unat tr) transbytea0;
          transbyteb = transbytea XOR 0xff
      in if 0 \<le> pos \<and> pos < int (length self) then
           (let addrpos0 = self ! nat pos;
                addrpos1 = addrpos0 AND transbyteb;
                addrpos2 = (if p > prox then addrpos1 XOR drop_bit (unat tr) 0x80
                            else addrpos1);
                addrpos3 = addrpos2 OR (transbytea AND f n)
            in Inr (fill_loop f (self[nat pos := addrpos3]) (nat pos + 1) (n + 1)))
         else Inl IndexOutOfRange)"

definition const_fill :: "byte \<Rightarrow> byte_source" where
  \<comment> \<open>\<^verbatim>\<open>func() byte { return b }\<close>\<close>
  "const_fill b k = b"

definition CommonBitsAddr ::
  "Address \<Rightarrow> Address \<Rightarrow> byte_source \<Rightarrow> nat \<Rightarrow> int \<Rightarrow> panic + (Address \<times> nat)" where
  "CommonBitsAddr self other rnd n prox = CommonBitsAddrF self other rnd n prox"

definition CommonBitsAddrByte :: "Address \<Rightarrow> Address \<Rightarrow> byte \<Rightarrow> int \<Rightarrow> panic + Address" where
  "CommonBitsAddrByte self other b prox =
     (case CommonBitsAddrF self other (const_fill b) 0 prox of
        Inl e \<Rightarrow> Inl e
      | Inr (addr, n) \<Rightarrow> Inr addr)"

definition KeyRange :: "Address \<Rightarrow> Address \<Rightarrow> int \<Rightarrow> panic + (Address \<times> Address)" where
  "KeyRange one other proxLimit =
     (let prox0 = proximity one other;
          prox = (if prox0 \<ge> proxLimit then proxLimit else prox0)
      in case CommonBitsAddrByte one other 0x00 prox of
           Inl e \<Rightarrow> Inl e
         | Inr start \<Rightarrow>
             (case CommonBitsAddrByte one other 0xff prox of
                Inl e \<Rightarrow> Inl e
              | Inr stop \<Rightarrow> Inr (start, stop)))"

subsection \<open>String and MarshalJSON\<close>

text \<open>
  \<^verbatim>\<open>fmt.Sprintf("%x", a[:])\<close> writes two lowercase hexadecimal digits per byte;
  \<open>MarshalJSON\<close> puts the result between double quotes (its error result is always
  \<open>nil\<close> and is left out).
\<close>

definition hex_digit :: "nat \<Rightarrow> char" where
  "hex_digit d = ''0123456789abcdef'' ! d"

definition Address_String :: "Address \<Rightarrow> string" where
  "Address_String a = concat (map (\<lambda>b. [hex_digit (unat b div 16), hex_digit (unat b mod 16)]) a)"

definition MarshalJSON :: "Address \<Rightarrow> string" where
  "MarshalJSON a = [CHR 0x22] @ Address_String a @ [CHR 0x22]"

subsection \<open>UnmarshalJSON\<close>

text \<open>
  \<^verbatim>\<open>*a = Address(common.HexToHash(string(value[1 : len(value)-1]))); return nil\<close>.
  \<open>common.HexToHash\<close> lives outside this file and is a parameter; its Go type
  \<open>func(string) Hash\<close> has no error result. The slice expression panics when
  \<open>len(value) < 2\<close>. The result is the new value of \<open>*a\<close> and the returned \<open>error\<close>,
  \<open>None\<close> for \<open>nil\<close>. The error values are those the spec names; the source
  constructs neither.
\<close>

datatype error = InvalidLength | InvalidEncoding

definition UnmarshalJSON ::
  "(string \<Rightarrow> Address) \<Rightarrow> Address \<Rightarrow> string \<Rightarrow> panic + (Address \<times> error option)" where
  "UnmarshalJSON HexToHash a val =
     (if length val < 2 then Inl SliceBoundsOutOfRange
      else Inr (HexToHash (take (length val - 2) (drop 1 val)), None))"

subsection \<open>Vocabulary of the properties\<close>

text \<open>
  Bit \<open>n\<close> of an address, counted from the most significant bit of byte 0; the leading
  \<open>k\<close> bits; and the order of two byte sequences read as big-endian unsigned numbers
  (lexicographic on the bytes).
\<close>

definition addr_bit :: "Address \<Rightarrow> nat \<Rightarrow> bool" where
  "addr_bit a n = bit (a ! (n div 8)) (7 - n mod 8)"

definition leading_bits :: "int \<Rightarrow> Address \<Rightarrow> bool list" where
  "leading_bits k a = map (addr_bit a) [0 ..< nat k]"

fun be_nat :: "byte list \<Rightarrow> nat" where
  "be_nat [] = 0"
| "be_nat (x # xs) = unat x * 256 ^ length xs + be_nat xs"

fun bytes_le :: "byte list \<Rightarrow> byte list \<Rightarrow> bool" where
  "bytes_le (x # xs) (y # ys) = (x < y \<or> (x = y \<and> bytes_le xs ys))"
| "bytes_le [] ys = True"
| "bytes_le (x # xs) [] = False"

text \<open>
  The bit at position \<open>k\<close> of the address that a call returned, \<open>None\<close> when it
  panicked.
\<close>

definition result_bit :: "panic + (Address \<times> nat) \<Rightarrow> nat \<Rightarrow> bool option" where
  "result_bit r k = (case r of Inl e \<Rightarrow> None | Inr res \<Rightarrow> Some (addr_bit (fst res) k))"

text \<open>Concrete inputs used to exercise the theorems.\<close>

definition ex_last_bit :: Address where
  \<comment> \<open>all zero but the least significant bit of byte 31\<close>
  "ex_last_bit = zero_Address[31 := 1]"

definition ex_first_bit :: Address where
  \<comment> \<open>all zero but the most significant bit of byte 0\<close>
  "ex_first_bit = zero_Address[0 := 0x80]"

definition ex_ones :: Address where
  \<comment> \<open>every byte 0x01\<close>
  "ex_ones = replicate HashLength 1"

definition HexToHash_zero :: "string \<Rightarrow> Address" where
  \<comment> \<open>an instance of the \<open>HexToHash\<close> parameter, to run \<open>UnmarshalJSON\<close> on
      concrete input; the error that \<open>UnmarshalJSON\<close> returns does not depend on it\<close>
  "HexToHash_zero s = zero_Address"

section \<open>Bytes\<close>

lemma byte_xor_eq_0: "(a :: byte) XOR b = 0 \<longleftrightarrow> a = b"
proof
  assume "a XOR b = 0"
  then have "(a XOR b) XOR b = 0 XOR b" by simp
  then show "a = b" by (simp add: xor.assoc)
qed simp

lemma byte_xor_cancel: "(a :: byte) XOR t = b XOR t \<longleftrightarrow> a = b"
proof
  assume "a XOR t = b XOR t"
  then have "(a XOR t) XOR t = (b XOR t) XOR t" by simp
  then show "a = b" by (simp add: xor.assoc)
qed simp

section \<open>The bit scan of proximity\<close>

lemma test_bit_iff: "(drop_bit n (w::byte) AND 1 \<noteq> 0) = bit w n"
  by (simp add: bit_iff_odd_drop_bit and_one_eq mod_2_eq_odd)

lemma shift_lower:
  assumes "\<not> P (j::nat)"
  shows "(\<forall>k. j + 1 \<le> k \<and> k < m \<longrightarrow> \<not> P k) \<longleftrightarrow> (\<forall>k. j \<le> k \<and> k < m \<longrightarrow> \<not> P k)"
proof
  assume a: "\<forall>k. j + 1 \<le> k \<and> k < m \<longrightarrow> \<not> P k"
  show "\<forall>k. j \<le> k \<and> k < m \<longrightarrow> \<not> P k"
  proof (intro allI impI)
    fix k assume "j \<le> k \<and> k < m"
    then have "k = j \<or> (j + 1 \<le> k \<and> k < m)" by arith
    then show "\<not> P k" using a assms by blast
  qed
next
  assume a: "\<forall>k. j \<le> k \<and> k < m \<longrightarrow> \<not> P k"
  show "\<forall>k. j + 1 \<le> k \<and> k < m \<longrightarrow> \<not> P k"
    using a by simp
qed

lemma bit_scan_None: "bit_scan oxo j = None \<longleftrightarrow> (\<forall>k. j \<le> k \<and> k < 8 \<longrightarrow> \<not> bit oxo (7 - k))"
proof (induction oxo j rule: bit_scan.induct)
  case (1 oxo j)
  show ?case
  proof (cases "j < 8")
    case True
    show ?thesis
    proof (cases "bit oxo (7 - j)")
      case True
      with \<open>j < 8\<close> show ?thesis
        by (subst bit_scan.simps) (auto simp: test_bit_iff)
    next
      case False
      with \<open>j < 8\<close> 1 have "bit_scan oxo j = None \<longleftrightarrow> (\<forall>k. j + 1 \<le> k \<and> k < 8 \<longrightarrow> \<not> bit oxo (7 - k))"
        by (subst bit_scan.simps) (simp add: test_bit_iff)
      also have "\<dots> \<longleftrightarrow> (\<forall>k. j \<le> k \<and> k < 8 \<longrightarrow> \<not> bit oxo (7 - k))"
        using False by (rule shift_lower [where P = "\<lambda>k. bit oxo (7 - k)"])
      finally show ?thesis .
    qed
  next
    case False
    then show ?thesis by (subst bit_scan.simps) auto
  qed
qed

lemma bit_scan_Some: "bit_scan oxo j = Some m \<longleftrightarrow>
   (j \<le> m \<and> m < 8 \<and> bit oxo (7 - m) \<and> (\<forall>k. j \<le> k \<and> k < m \<longrightarrow> \<not> bit oxo (7 - k)))"
proof (induction oxo j rule: bit_scan.induct)
  case (1 oxo j)
  show ?case
  proof (cases "j < 8")
    case True
    show ?thesis
    proof (cases "bit oxo (7 - j)")
      case True
      have "bit_scan oxo j = Some j"
        using True \<open>j < 8\<close> by (subst bit_scan.simps) (simp add: test_bit_iff)
      moreover have "(j \<le> m \<and> m < 8 \<and> bit oxo (7 - m) \<and> (\<forall>k. j \<le> k \<and> k < m \<longrightarrow> \<not> bit oxo (7 - k))) \<longleftrightarrow> m = j"
      proof
        assume a: "j \<le> m \<and> m < 8 \<and> bit oxo (7 - m) \<and> (\<forall>k. j \<le> k \<and> k < m \<longrightarrow> \<not> bit oxo (7 - k))"
        show "m = j"
        proof (rule ccontr)
          assume "m \<noteq> j"
          with a have "j \<le> j \<and> j < m" by simp
          with a True show False by blast
        qed
      next
        assume "m = j"
        with True \<open>j < 8\<close> show "j \<le> m \<and> m < 8 \<and> bit oxo (7 - m) \<and> (\<forall>k. j \<le> k \<and> k < m \<longrightarrow> \<not> bit oxo (7 - k))"
          by auto
      qed
      ultimately show ?thesis by auto
    next
      case False
      with \<open>j < 8\<close> 1 have "bit_scan oxo j = Some m \<longleftrightarrow>
         (j + 1 \<le> m \<and> m < 8 \<and> bit oxo (7 - m) \<and> (\<forall>k. j + 1 \<le> k \<and> k < m \<longrightarrow> \<not> bit oxo (7 - k)))"
        by (subst bit_scan.simps) (simp add: test_bit_iff)
      also have "\<dots> \<longleftrightarrow> (j + 1 \<le> m \<and> m < 8 \<and> bit oxo (7 - m) \<and> (\<forall>k. j \<le> k \<and> k < m \<longrightarrow> \<not> bit oxo (7 - k)))"
        using shift_lower [where P = "\<lambda>k. bit oxo (7 - k)", OF False] by simp
      also have "\<dots> \<longleftrightarrow> (j \<le> m \<and> m < 8 \<and> bit oxo (7 - m) \<and> (\<forall>k. j \<le> k \<and> k < m \<longrightarrow> \<not> bit oxo (7 - k)))"
        using False by (cases "m = j") auto
      finally show ?thesis .
    qed
  next
    case False
    then show ?thesis by (subst bit_scan.simps) auto
  qed
qed

lemma byte_zero_iff: "(w :: byte) = 0 \<longleftrightarrow> (\<forall>k < 8. \<not> bit w k)"
  by (auto simp: bit_eq_iff bit_simps dest: bit_imp_le_length)

lemma bit_scan_0_None: "bit_scan oxo 0 = None \<longleftrightarrow> oxo = 0"
proof -
  have "(\<forall>k. k < 8 \<longrightarrow> \<not> bit oxo (7 - k)) \<longleftrightarrow> (\<forall>k < 8. \<not> bit oxo k)"
  proof
    assume a: "\<forall>k. k < 8 \<longrightarrow> \<not> bit oxo (7 - k)"
    show "\<forall>k < 8. \<not> bit oxo k"
    proof (intro allI impI)
      fix k :: nat assume "k < 8"
      then have "7 - k < 8" "7 - (7 - k) = k" by arith+
      with a show "\<not> bit oxo k" by metis
    qed
  next
    assume a: "\<forall>k < 8. \<not> bit oxo k"
    show "\<forall>k. k < 8 \<longrightarrow> \<not> bit oxo (7 - k)"
      using a by simp
  qed
  then show ?thesis by (simp add: bit_scan_None byte_zero_iff)
qed

lemma bit_scan_less: "bit_scan oxo j = Some m \<Longrightarrow> m < 8"
  by (simp add: bit_scan_Some)

section \<open>proximity\<close>

lemma proximity_from_sym:
  "length one = length other \<Longrightarrow> proximity_from one other i = proximity_from other one i"
proof (induction one other i rule: proximity_from.induct)
  case (1 one other i)
  show ?case
  proof (cases "i < length one")
    case True
    have c: "one ! i XOR other ! i = other ! i XOR one ! i"
      by (rule xor.commute)
    show ?thesis
    proof (cases "bit_scan (one ! i XOR other ! i) 0")
      case None
      with True 1 show ?thesis
        by (subst proximity_from.simps, subst (2) proximity_from.simps) (simp add: c)
    next
      case (Some j)
      with True 1 show ?thesis
        by (subst proximity_from.simps, subst (2) proximity_from.simps) (simp add: c)
    qed
  next
    case False
    with 1 show ?thesis
      by (subst proximity_from.simps, subst (2) proximity_from.simps) simp
  qed
qed

lemma proximity_from_bounds:
  "i \<le> length one \<Longrightarrow>
   int (i * 8) \<le> proximity_from one other i \<and> proximity_from one other i \<le> int (length one * 8)"
proof (induction one other i rule: proximity_from.induct)
  case (1 one other i)
  show ?case
  proof (cases "i < length one")
    case True
    show ?thesis
    proof (cases "bit_scan (one ! i XOR other ! i) 0")
      case None
      with True 1 show ?thesis
        by (subst proximity_from.simps, subst (2) proximity_from.simps) simp
    next
      case (Some j)
      then have "j < 8" by (rule bit_scan_less)
      with True Some show ?thesis
        by (subst proximity_from.simps, subst (2) proximity_from.simps) simp
    qed
  next
    case False
    with 1 show ?thesis
      by (subst proximity_from.simps, subst (2) proximity_from.simps) simp
  qed
qed

lemma proximity_from_full:
  "proximity_from one other i = int (length one * 8) \<Longrightarrow> i \<le> k \<Longrightarrow> k < length one \<Longrightarrow>
   one ! k = other ! k"
proof (induction one other i rule: proximity_from.induct)
  case (1 one other i)
  from "1.prems" have il: "i < length one" by simp
  show ?case
  proof (cases "bit_scan (one ! i XOR other ! i) 0")
    case None
    then have e: "one ! i = other ! i"
      by (simp add: bit_scan_0_None byte_xor_eq_0)
    from None il "1.prems"(1) have "proximity_from one other (i + 1) = int (length one * 8)"
      by (subst (asm) proximity_from.simps) simp
    with "1.IH" [OF il None] "1.prems" e show ?thesis
      by (cases "k = i") simp_all
  next
    case (Some j)
    then have "j < 8" by (rule bit_scan_less)
    with Some il "1.prems"(1) show ?thesis
      by (subst (asm) proximity_from.simps) simp
  qed
qed

lemma proximity_from_eq:
  "(\<forall>k. i \<le> k \<and> k < length one \<longrightarrow> one ! k = other ! k) \<Longrightarrow>
   proximity_from one other i = int (length one * 8)"
proof (induction one other i rule: proximity_from.induct)
  case (1 one other i)
  show ?case
  proof (cases "i < length one")
    case True
    with "1.prems" have "one ! i XOR other ! i = 0" by simp
    then have n: "bit_scan (one ! i XOR other ! i) 0 = None"
      by (simp add: bit_scan_0_None)
    with True "1.IH" [OF True n] "1.prems" show ?thesis
      by (subst proximity_from.simps) simp
  next
    case False
    then show ?thesis by (subst proximity_from.simps) simp
  qed
qed

lemma proximity_from_at:
  "i \<le> pos \<Longrightarrow> pos < length one \<Longrightarrow> (\<forall>k. i \<le> k \<and> k < pos \<longrightarrow> one ! k = other ! k) \<Longrightarrow>
   bit_scan (one ! pos XOR other ! pos) 0 = Some t \<Longrightarrow>
   proximity_from one other i = int (pos * 8 + t)"
proof (induction one other i rule: proximity_from.induct)
  case (1 one other i)
  from "1.prems" have il: "i < length one" by simp
  show ?case
  proof (cases "i = pos")
    case True
    with il "1.prems" show ?thesis
      by (subst proximity_from.simps) simp
  next
    case False
    with "1.prems" have "one ! i XOR other ! i = 0" by simp
    then have n: "bit_scan (one ! i XOR other ! i) 0 = None"
      by (simp add: bit_scan_0_None)
    from False "1.prems" have "proximity_from one other (i + 1) = int (pos * 8 + t)"
      by (intro "1.IH" [OF il n]) simp_all
    with il n show ?thesis
      by (subst proximity_from.simps) simp
  qed
qed

section \<open>ProxCmp\<close>

lemma ProxCmp_from_range: "ProxCmp_from t a b i \<in> {- 1, 0, 1}"
proof (induction t a b i rule: ProxCmp_from.induct)
  case (1 target a b i)
  then show ?case
    by (subst ProxCmp_from.simps) (simp add: Let_def)
qed

lemma ProxCmp_from_same: "a = b \<Longrightarrow> ProxCmp_from t a b i = 0"
proof (induction t a b i rule: ProxCmp_from.induct)
  case (1 target a b i)
  then show ?case
    by (subst ProxCmp_from.simps) (simp add: Let_def)
qed

lemma ProxCmp_from_refl: "ProxCmp_from t a a i = 0"
  by (simp add: ProxCmp_from_same)

lemma ProxCmp_from_zero_iff:
  "ProxCmp_from t a b i = 0 \<longleftrightarrow> (\<forall>k. i \<le> k \<and> k < length t \<longrightarrow> a ! k = b ! k)"
proof (induction t a b i rule: ProxCmp_from.induct)
  case (1 target a b i)
  show ?case
  proof (cases "i < length target")
    case True
    show ?thesis
    proof (cases "a ! i = b ! i")
      case e: True
      with True 1 have "ProxCmp_from target a b i = 0 \<longleftrightarrow>
          (\<forall>k. i + 1 \<le> k \<and> k < length target \<longrightarrow> a ! k = b ! k)"
        by (subst ProxCmp_from.simps) (simp add: Let_def)
      also have "\<dots> \<longleftrightarrow> (\<forall>k. i \<le> k \<and> k < length target \<longrightarrow> a ! k = b ! k)"
        using shift_lower [where P = "\<lambda>k. a ! k \<noteq> b ! k" and j = i and m = "length target"] e
        by simp
      finally show ?thesis .
    next
      case ne: False
      then have "a ! i XOR target ! i \<noteq> b ! i XOR target ! i"
        by (simp add: byte_xor_cancel)
      then have "a ! i XOR target ! i < b ! i XOR target ! i \<or> b ! i XOR target ! i < a ! i XOR target ! i"
        by (rule linorder_neqE) simp_all
      with True have "ProxCmp_from target a b i \<noteq> 0"
        by (subst ProxCmp_from.simps) (auto simp add: Let_def)
      moreover from True ne have "\<not> (\<forall>k. i \<le> k \<and> k < length target \<longrightarrow> a ! k = b ! k)"
        by auto
      ultimately show ?thesis by simp
    qed
  next
    case False
    then show ?thesis by (subst ProxCmp_from.simps) auto
  qed
qed

section \<open>Masks, loops and Go arithmetic\<close>

lemma bit_255: "bit (255 :: byte) k \<longleftrightarrow> k < 8"
proof -
  have "(255 :: byte) = - 1" by simp
  then show ?thesis by (simp only: bit_minus_1_iff) simp
qed

lemma bit_push_1_byte: "bit (push_bit s (1 :: byte)) m \<longleftrightarrow> m = s \<and> s < 8"
  by (auto simp: bit_simps)

lemma transbytea_loop_bits:
  "tr \<le> 7 \<Longrightarrow>
   bit (transbytea_loop tr j acc) k \<longleftrightarrow> bit acc k \<or> (j \<le> tr \<and> 7 - tr \<le> k \<and> k \<le> 7 - j)"
proof (induction tr j acc rule: transbytea_loop.induct)
  case (1 tr j acc)
  show ?case
  proof (cases "j \<le> tr")
    case True
    have "bit (transbytea_loop tr j acc) k \<longleftrightarrow>
          bit (acc OR push_bit (7 - j) 1) k \<or> (j + 1 \<le> tr \<and> 7 - tr \<le> k \<and> k \<le> 7 - (j + 1))"
      using True "1.IH" [OF True "1.prems"] by (subst transbytea_loop.simps) simp
    also have "\<dots> \<longleftrightarrow> bit acc k \<or> k = 7 - j \<or> (j + 1 \<le> tr \<and> 7 - tr \<le> k \<and> k \<le> 7 - (j + 1))"
      using True "1.prems" by (auto simp: bit_simps)
    also have "\<dots> \<longleftrightarrow> bit acc k \<or> (j \<le> tr \<and> 7 - tr \<le> k \<and> k \<le> 7 - j)"
      using True "1.prems" by auto
    finally show ?thesis .
  next
    case False
    then show ?thesis by (subst transbytea_loop.simps) simp
  qed
qed

lemma transbytea_bits:
  "tr \<le> 7 \<Longrightarrow> bit (transbytea_loop tr 0 0) k \<longleftrightarrow> 7 - tr \<le> k \<and> k \<le> 7"
  by (simp add: transbytea_loop_bits)

lemma fill_loop_length: "length (fst (fill_loop f addr i n)) = length addr"
proof (induction f addr i n rule: fill_loop.induct)
  case (1 f addr i n)
  then show ?case by (subst fill_loop.simps) simp
qed

lemma fill_loop_count: "snd (fill_loop f addr i n) = n + (length addr - i)"
proof (induction f addr i n rule: fill_loop.induct)
  case (1 f addr i n)
  show ?case
  proof (cases "i < length addr")
    case True
    then have "Suc n + (length addr - Suc i) = n + (length addr - i)" by arith
    with True "1.IH" [OF True] show ?thesis by (subst fill_loop.simps) simp
  next
    case False
    then show ?thesis by (subst fill_loop.simps) simp
  qed
qed

lemma fill_loop_before: "k < i \<Longrightarrow> fst (fill_loop f addr i n) ! k = addr ! k"
proof (induction f addr i n rule: fill_loop.induct)
  case (1 f addr i n)
  then show ?case by (subst fill_loop.simps) simp
qed

lemma fill_loop_from:
  "i \<le> k \<Longrightarrow> k < length addr \<Longrightarrow> fst (fill_loop f addr i n) ! k = f (n + (k - i))"
proof (induction f addr i n rule: fill_loop.induct)
  case (1 f addr i n)
  from "1.prems" have il: "i < length addr" by simp
  show ?case
  proof (cases "k = i")
    case True
    with il show ?thesis
      by (subst fill_loop.simps) (simp add: fill_loop_before)
  next
    case False
    with "1.prems" have "Suc n + (k - Suc i) = n + (k - i)" by arith
    with False "1.prems" il "1.IH" [OF il] show ?thesis
      by (subst fill_loop.simps) simp
  qed
qed

lemma go_quot_nonneg: "0 \<le> a \<Longrightarrow> go_quot a 8 = a div 8"
  by (simp add: go_quot_def)

lemma go_rem_nonneg: "0 \<le> a \<Longrightarrow> go_rem a 8 = a mod 8"
  by (simp add: go_rem_def go_quot_def minus_div_mult_eq_mod)

lemma bit_drop_ff: "bit (drop_bit s (0xff :: byte)) m \<longleftrightarrow> m + s < 8"
proof -
  have "bit (drop_bit s (255 :: byte)) m \<longleftrightarrow> bit (255 :: byte) (s + m)"
    by (rule bit_drop_bit_eq [THEN fun_cong, unfolded comp_def])
  then show ?thesis by (simp only: bit_255) (simp add: add.commute)
qed

lemma bit_drop_7f: "bit (drop_bit s (0x7f :: byte)) m \<longleftrightarrow> m + s < 7"
proof -
  have e: "(0x7f :: byte) = drop_bit 1 0xff" by simp
  have "bit (drop_bit s (drop_bit 1 (0xff :: byte))) m \<longleftrightarrow> m + (s + 1) < 8"
    by (simp only: drop_bit_drop_bit bit_drop_ff)
  then show ?thesis unfolding e by simp
qed

lemma bit_drop_80: "bit (drop_bit s (0x80 :: byte)) m \<longleftrightarrow> m + s = 7"
proof -
  have e: "(0x80 :: byte) = push_bit 7 1" by simp
  have "bit (drop_bit s (push_bit 7 (1 :: byte))) m \<longleftrightarrow> bit (push_bit 7 (1 :: byte)) (s + m)"
    by (rule bit_drop_bit_eq [THEN fun_cong, unfolded comp_def])
  also have "\<dots> \<longleftrightarrow> m + s = 7"
    by (simp only: bit_push_1_byte) auto
  finally show ?thesis unfolding e .
qed

lemma unat_byte_of_int: "0 \<le> k \<Longrightarrow> k < 256 \<Longrightarrow> unat (word_of_int k :: byte) = nat k"
  by (simp add: unsigned_of_int take_bit_int_eq_self)

lemma go_quot_small_neg: "- 8 < a \<Longrightarrow> a < 0 \<Longrightarrow> go_quot a 8 = 0"
  by (simp add: go_quot_def)

lemma go_quot_neg_le: "a \<le> - 8 \<Longrightarrow> go_quot a 8 < 0"
proof -
  assume "a \<le> - 8"
  then have "1 \<le> \<bar>a\<bar> div 8" by (simp add: zdiv_mono1 [of 8 "\<bar>a\<bar>" 8, simplified])
  with \<open>a \<le> - 8\<close> show ?thesis by (simp add: go_quot_def)
qed

section \<open>Range of proximity\<close>

lemma proximity_range:
  "0 \<le> proximity one other \<and> proximity one other \<le> int (length one * 8)"
  using proximity_from_bounds [of 0 one other] by (simp add: proximity_def)

lemma proximity_less_if_neq:
  assumes "length one = length other" "one \<noteq> other"
  shows "proximity one other < int (length one * 8)"
proof (rule ccontr)
  assume "\<not> proximity one other < int (length one * 8)"
  with proximity_range [of one other] have "proximity_from one other 0 = int (length one * 8)"
    by (simp add: proximity_def)
  then have "\<forall>k < length one. one ! k = other ! k"
    using proximity_from_full [of one other 0] by simp
  with assms show False
    by (simp add: list_eq_iff_nth_eq)
qed

lemma proximity_self: "proximity a a = int (length a * 8)"
  by (simp add: proximity_def proximity_from_eq)

section \<open>RandomAddressAt\<close>

lemma diverge_byte_bit:
  assumes "tr \<le> 7" "m < 8" "7 - tr \<le> m"
  shows "bit (((x AND transbytea_loop tr 0 0) XOR push_bit (7 - tr) 1) OR
              (r AND (transbytea_loop tr 0 0 XOR 255))) m
         \<longleftrightarrow> (bit x m \<noteq> (m = 7 - tr))"
proof -
  have "bit (((x AND transbytea_loop tr 0 0) XOR push_bit (7 - tr) 1) OR
              (r AND (transbytea_loop tr 0 0 XOR 255))) m
        \<longleftrightarrow> ((bit x m \<and> (7 - tr \<le> m \<and> m \<le> 7)) \<noteq> (m = 7 - tr \<and> 7 - tr < 8)) \<or>
            (bit r m \<and> ((7 - tr \<le> m \<and> m \<le> 7) \<noteq> (m < 8)))"
    by (simp only: bit_or_iff bit_xor_iff bit_and_iff transbytea_bits [OF assms(1)] bit_255
        bit_push_1_byte)
  also have "\<dots> \<longleftrightarrow> (bit x m \<noteq> (m = 7 - tr))"
    using assms by auto
  finally show ?thesis .
qed

lemma diverge_byte_scan:
  assumes "tr \<le> 7"
  shows "bit_scan (x XOR (((x AND transbytea_loop tr 0 0) XOR push_bit (7 - tr) 1) OR
                         (r AND (transbytea_loop tr 0 0 XOR 255)))) 0 = Some tr"
proof -
  let ?new = "((x AND transbytea_loop tr 0 0) XOR push_bit (7 - tr) 1) OR
              (r AND (transbytea_loop tr 0 0 XOR 255))"
  have at: "bit (x XOR ?new) (7 - tr)"
    using assms diverge_byte_bit [OF assms, of "7 - tr" x r] by (simp add: bit_xor_iff)
  have before: "\<not> bit (x XOR ?new) (7 - k)" if "k < tr" for k
  proof -
    from that assms have "7 - k < 8" "7 - tr \<le> 7 - k" "7 - k \<noteq> 7 - tr" by arith+
    with diverge_byte_bit [OF assms, of "7 - k" x r] show ?thesis
      by (simp add: bit_xor_iff)
  qed
  from at before assms show ?thesis
    by (simp add: bit_scan_Some)
qed

lemma RandomAddressAt_nonneg:
  assumes "0 \<le> prox" "prox < int (length self * 8)"
  shows "RandomAddressAt rnd n self prox =
         Inr (fill_loop rnd
                (self[nat (prox div 8) :=
                   ((self ! nat (prox div 8) AND transbytea_loop (nat (prox mod 8)) 0 0)
                      XOR push_bit (7 - nat (prox mod 8)) 1)
                   OR (rnd n AND (transbytea_loop (nat (prox mod 8)) 0 0 XOR 255))])
                (nat (prox div 8) + 1) (n + 1))"
proof -
  from assms have "prox div 8 < int (length self)" by simp
  moreover from assms have "0 \<le> prox div 8" by simp
  moreover have "nat (7 - prox mod 8) = 7 - nat (prox mod 8)" by simp
  ultimately show ?thesis
    using assms by (simp add: RandomAddressAt_def Let_def go_quot_nonneg go_rem_nonneg)
qed

lemma RandomAddressAt_panics:
  assumes "int (length self * 8) \<le> prox"
  shows "RandomAddressAt rnd n self prox = Inl IndexOutOfRange"
proof -
  from assms have "0 \<le> prox" by simp
  moreover from assms have "int (length self * 8) div 8 \<le> prox div 8"
    by (rule zdiv_mono1) simp
  ultimately show ?thesis
    by (simp add: RandomAddressAt_def Let_def go_quot_nonneg)
qed

lemma RandomAddressAt_negative:
  "prox < 0 \<Longrightarrow> RandomAddressAt rnd n self prox = Inr (fill_loop rnd self 1 n)"
  by (simp add: RandomAddressAt_def)

section \<open>CommonBitsAddrF\<close>

lemma CommonBitsAddrF_capped:
  assumes "p \<le> proximity self other" "0 \<le> go_quot p 8" "go_quot p 8 < int (length self)"
  shows "CommonBitsAddrF self other f n p =
         Inr (fill_loop f
               (self[nat (go_quot p 8) :=
                  (self ! nat (go_quot p 8) AND
                     (drop_bit (unat (word_of_int (go_rem p 8) :: byte)) 0xff XOR 0xff))
                  OR (drop_bit (unat (word_of_int (go_rem p 8) :: byte)) 0xff AND f n)])
               (nat (go_quot p 8) + 1) (n + 1))"
  using assms by (simp add: CommonBitsAddrF_def Let_def)

lemma CommonBitsAddrF_uncapped:
  assumes "proximity self other < p" "proximity self other < int (length self * 8)"
  shows "CommonBitsAddrF self other f n p =
         Inr (fill_loop f
               (self[nat (proximity self other div 8) :=
                  ((self ! nat (proximity self other div 8) AND
                     (drop_bit (nat (proximity self other mod 8)) 0x7f XOR 0xff))
                   XOR drop_bit (nat (proximity self other mod 8)) 0x80)
                  OR (drop_bit (nat (proximity self other mod 8)) 0x7f AND f n)])
               (nat (proximity self other div 8) + 1) (n + 1))"
proof -
  let ?q = "proximity self other"
  have q0: "0 \<le> ?q" using proximity_range [of self other] by simp
  then have "0 \<le> ?q mod 8" "?q mod 8 < 256" "0 \<le> ?q div 8"
    by (simp_all add: pos_imp_zdiv_nonneg_iff)
  moreover from assms(2) have "?q div 8 < int (length self)" by simp
  ultimately show ?thesis
    using assms q0
    by (simp add: CommonBitsAddrF_def Let_def go_quot_nonneg go_rem_nonneg unat_byte_of_int)
qed

lemma capped_byte_bit:
  "m < 8 \<Longrightarrow>
   bit ((x AND (drop_bit s 0xff XOR 0xff)) OR (drop_bit s (0xff :: byte) AND b)) m
   \<longleftrightarrow> (if m + s < 8 then bit b m else bit x m)"
proof -
  assume m: "m < 8"
  have "bit ((x AND (drop_bit s 0xff XOR 0xff)) OR (drop_bit s (0xff :: byte) AND b)) m
        \<longleftrightarrow> (bit x m \<and> ((m + s < 8) \<noteq> (m < 8))) \<or> (m + s < 8 \<and> bit b m)"
    by (simp only: bit_or_iff bit_xor_iff bit_and_iff bit_drop_ff bit_255)
  also have "\<dots> \<longleftrightarrow> (if m + s < 8 then bit b m else bit x m)"
    using m by auto
  finally show ?thesis .
qed

lemma capped_byte_le:
  "(x AND (drop_bit s 0xff XOR 0xff)) OR (drop_bit s (0xff :: byte) AND 0x00)
   \<le> (x AND (drop_bit s 0xff XOR 0xff)) OR (drop_bit s (0xff :: byte) AND 0xff)"
  by (simp add: le_word_or2)

lemma index_split:
  fixes n P :: nat
  assumes "n < P"
  shows "n div 8 < P div 8 \<or> (n div 8 = P div 8 \<and> n mod 8 < P mod 8)"
proof (cases "n div 8 < P div 8")
  case False
  have "n div 8 \<le> P div 8" using assms by (simp add: div_le_mono)
  with False have e: "n div 8 = P div 8" by simp
  have "n = 8 * (n div 8) + n mod 8" "P = 8 * (P div 8) + P mod 8" by simp_all
  with e assms have "n mod 8 < P mod 8" by arith
  with e show ?thesis by simp
qed simp


lemma capped_leading_bit:
  assumes "n' < P" "P div 8 < length self"
  shows "addr_bit (fst (fill_loop f
            (self[P div 8 :=
               (self ! (P div 8) AND (drop_bit (P mod 8) 0xff XOR 0xff))
               OR (drop_bit (P mod 8) 0xff AND b)])
            (P div 8 + 1) c)) n'
         = addr_bit self n'"
proof -
  let ?pos = "P div 8" and ?s = "P mod 8"
  let ?new = "(self ! ?pos AND (drop_bit ?s 0xff XOR 0xff)) OR (drop_bit ?s 0xff AND b)"
  let ?res = "fst (fill_loop f (self[?pos := ?new]) (?pos + 1) c)"
  from index_split [OF assms(1)]
  consider (before) "n' div 8 < ?pos" | (at) "n' div 8 = ?pos" "n' mod 8 < ?s" by blast
  then show ?thesis
  proof cases
    case before
    then have "?res ! (n' div 8) = self ! (n' div 8)"
      by (simp add: fill_loop_before)
    then show ?thesis by (simp add: addr_bit_def)
  next
    case at
    then have "?res ! (n' div 8) = ?new"
      using assms(2) by (simp add: fill_loop_before)
    moreover have "bit ?new (7 - n' mod 8) = bit (self ! ?pos) (7 - n' mod 8)"
      using at(2) by (subst capped_byte_bit) auto
    ultimately show ?thesis using at(1) by (simp add: addr_bit_def)
  qed
qed

lemma uncapped_byte_bit:
  assumes "s \<le> 7"
  shows "bit (((x AND (drop_bit s 0x7f XOR 0xff)) XOR drop_bit s 0x80)
              OR (drop_bit s (0x7f :: byte) AND b)) (7 - s)
         \<longleftrightarrow> \<not> bit x (7 - s)"
proof -
  have "bit (((x AND (drop_bit s 0x7f XOR 0xff)) XOR drop_bit s 0x80)
              OR (drop_bit s (0x7f :: byte) AND b)) (7 - s)
        \<longleftrightarrow> ((bit x (7 - s) \<and> ((7 - s + s < 7) \<noteq> (7 - s < 8))) \<noteq> (7 - s + s = 7))
            \<or> (7 - s + s < 7 \<and> bit b (7 - s))"
    by (simp only: bit_or_iff bit_xor_iff bit_and_iff bit_drop_7f bit_drop_80 bit_255)
  also have "\<dots> \<longleftrightarrow> \<not> bit x (7 - s)"
    using assms by auto
  finally show ?thesis .
qed

lemma CommonBitsAddrF_flip:
  assumes "wf_Address self" "wf_Address other" "proximity self other < p" "self \<noteq> other"
  shows "result_bit (CommonBitsAddrF self other f n p) (nat (proximity self other))
         = Some (\<not> addr_bit self (nat (proximity self other)))"
proof -
  let ?q = "proximity self other"
  let ?pos = "nat (?q div 8)" and ?s = "nat (?q mod 8)"
  let ?new = "((self ! ?pos AND (drop_bit ?s 0x7f XOR 0xff)) XOR drop_bit ?s 0x80)
              OR (drop_bit ?s 0x7f AND f n)"
  let ?res = "fill_loop f (self[?pos := ?new]) (?pos + 1) (n + 1)"
  from assms have len: "length self = length other"
    by (simp add: wf_Address_def)
  have q0: "0 \<le> ?q" using proximity_range [of self other] by simp
  have ql: "?q < int (length self * 8)"
    using len assms(4) by (rule proximity_less_if_neq)
  have ret: "CommonBitsAddrF self other f n p = Inr ?res"
    using assms(3) ql by (rule CommonBitsAddrF_uncapped)
  from ql q0 have pos: "?pos < length self" by simp
  have s: "?s \<le> 7"
  proof -
    have "?q mod 8 < 8" by simp
    then show ?thesis by simp
  qed
  have d: "nat ?q div 8 = ?pos" "nat ?q mod 8 = ?s"
    using q0 by (simp_all add: nat_div_distrib nat_mod_distrib)
  have "fst ?res ! ?pos = ?new"
    using pos by (simp add: fill_loop_before)
  then have "addr_bit (fst ?res) (nat ?q) = (\<not> addr_bit self (nat ?q))"
    unfolding addr_bit_def d using uncapped_byte_bit [OF s] by simp
  with ret show ?thesis
    by (simp add: result_bit_def)
qed

lemma CommonBitsAddrF_fill:
  assumes "wf_Address self" "wf_Address other" "0 \<le> p" "p \<le> proximity self other" "p < 256"
  shows "result_bit (CommonBitsAddrF self other f n p) (nat p)
         = Some (bit (f n) (7 - nat p mod 8))"
proof -
  let ?pos = "nat p div 8" and ?s = "nat p mod 8"
  let ?new = "(self ! ?pos AND (drop_bit ?s 0xff XOR 0xff)) OR (drop_bit ?s 0xff AND f n)"
  let ?res = "fill_loop f (self[?pos := ?new]) (?pos + 1) (n + 1)"
  from assms have len: "length self = 32"
    by (simp add: wf_Address_def HashLength_def)
  have e: "nat (go_quot p 8) = ?pos" "unat (word_of_int (go_rem p 8) :: byte) = ?s"
    using assms(3)
    by (simp_all add: go_quot_nonneg go_rem_nonneg unat_byte_of_int nat_div_distrib nat_mod_distrib)
  from assms(3,5) len have "0 \<le> go_quot p 8" "go_quot p 8 < int (length self)"
    by (simp_all add: go_quot_nonneg pos_imp_zdiv_nonneg_iff)
  from CommonBitsAddrF_capped [OF assms(4) this, of f n]
  have ret: "CommonBitsAddrF self other f n p = Inr ?res"
    unfolding e .
  from assms(3,5) len have pos: "?pos < length self" by simp
  have "fst ?res ! ?pos = ?new"
    using pos by (simp add: fill_loop_before)
  moreover have "bit ?new (7 - ?s) = bit (f n) (7 - ?s)"
    by (subst capped_byte_bit) simp_all
  ultimately have "addr_bit (fst ?res) (nat p) = bit (f n) (7 - ?s)"
    by (simp add: addr_bit_def)
  with ret show ?thesis
    by (simp add: result_bit_def)
qed

lemma CommonBitsAddrF_panics:
  assumes "p \<le> proximity self other" "p \<le> - 8 \<or> int (length self * 8) \<le> p"
  shows "CommonBitsAddrF self other f n p = Inl IndexOutOfRange"
proof -
  from assms(2) have "go_quot p 8 < 0 \<or> int (length self) \<le> go_quot p 8"
  proof
    assume "p \<le> - 8"
    then show ?thesis by (simp add: go_quot_neg_le)
  next
    assume a: "int (length self * 8) \<le> p"
    then have "0 \<le> p" by simp
    moreover from a have "int (length self * 8) div 8 \<le> p div 8"
      by (rule zdiv_mono1) simp
    ultimately show ?thesis by (simp add: go_quot_nonneg)
  qed
  with assms(1) show ?thesis
    by (auto simp add: CommonBitsAddrF_def Let_def)
qed

section \<open>Order of byte sequences\<close>

lemma bytes_le_pointwise:
  "length xs = length ys \<Longrightarrow> (\<forall>i < length xs. xs ! i \<le> ys ! i) \<Longrightarrow> bytes_le xs ys"
proof (induction xs ys rule: list_induct2)
  case Nil
  then show ?case by simp
next
  case (Cons x xs y ys)
  from Cons.prems have "x \<le> y" by auto
  moreover from Cons.prems have "\<forall>i < length xs. xs ! i \<le> ys ! i" by auto
  ultimately show ?case using Cons.IH by auto
qed

lemma be_nat_less: "be_nat xs < 256 ^ length xs"
proof (induction xs)
  case Nil
  then show ?case by simp
next
  case (Cons x xs)
  define B :: nat where "B = 256 ^ length xs"
  have "unat x < 256" using unsigned_less [of x] by simp
  then have "unat x + 1 \<le> 256" by simp
  then have "(unat x + 1) * B \<le> 256 * B"
    by (rule mult_le_mono1)
  then have "unat x * B + B \<le> 256 * B"
    by (simp only: add_mult_distrib mult_1)
  moreover have "be_nat xs < B"
    using Cons.IH by (simp add: B_def)
  ultimately have "unat x * B + be_nat xs < 256 * B"
    by linarith
  then show ?case by (simp add: B_def)
qed

lemma bytes_le_iff_be_nat:
  "length xs = length ys \<Longrightarrow> bytes_le xs ys \<longleftrightarrow> be_nat xs \<le> be_nat ys"
proof (induction xs ys rule: list_induct2)
  case Nil
  then show ?case by simp
next
  case (Cons x xs y ys)
  define B :: nat where "B = 256 ^ length xs"
  have bx: "be_nat xs < B" unfolding B_def by (rule be_nat_less)
  have by': "be_nat ys < B" using be_nat_less [of ys] Cons.hyps by (simp add: B_def)
  have ex: "be_nat (x # xs) = unat x * B + be_nat xs"
    and ey: "be_nat (y # ys) = unat y * B + be_nat ys"
    using Cons.hyps by (simp_all add: B_def)
  consider (lt) "x < y" | (eq) "x = y" | (gt) "y < x" by (rule linorder_cases)
  then show ?case
  proof cases
    case lt
    then have "unat x + 1 \<le> unat y" by (simp add: word_less_nat_alt)
    then have "(unat x + 1) * B \<le> unat y * B" by (rule mult_le_mono1)
    then have "unat x * B + B \<le> unat y * B"
      by (simp only: add_mult_distrib mult_1)
    with bx have "be_nat (x # xs) \<le> be_nat (y # ys)"
      unfolding ex ey by linarith
    with lt show ?thesis by simp
  next
    case eq
    with Cons show ?thesis by simp
  next
    case gt
    then have "unat y + 1 \<le> unat x" by (simp add: word_less_nat_alt)
    then have "(unat y + 1) * B \<le> unat x * B" by (rule mult_le_mono1)
    then have "unat y * B + B \<le> unat x * B"
      by (simp only: add_mult_distrib mult_1)
    with by' have "\<not> be_nat (x # xs) \<le> be_nat (y # ys)"
      unfolding ex ey by linarith
    moreover from gt have "\<not> x < y" "x \<noteq> y" by simp_all
    ultimately show ?thesis by simp
  qed
qed

section \<open>KeyRange\<close>

lemma go_quot_in_range:
  assumes "- 8 < p" "p < int (len * 8)" "0 < len"
  shows "0 \<le> go_quot p 8 \<and> go_quot p 8 < int len"
proof (cases "0 \<le> p")
  case True
  with assms show ?thesis by (simp add: go_quot_nonneg pos_imp_zdiv_nonneg_iff)
next
  case False
  with assms have "go_quot p 8 = 0" by (simp add: go_quot_small_neg)
  with assms(3) show ?thesis by simp
qed

lemma CommonBitsAddrByte_capped:
  assumes "p \<le> proximity self other" "- 8 < p" "p < int (length self * 8)" "0 < length self"
  shows "CommonBitsAddrByte self other b p =
         Inr (fst (fill_loop (const_fill b)
               (self[nat (go_quot p 8) :=
                  (self ! nat (go_quot p 8) AND
                     (drop_bit (unat (word_of_int (go_rem p 8) :: byte)) 0xff XOR 0xff))
                  OR (drop_bit (unat (word_of_int (go_rem p 8) :: byte)) 0xff AND b)])
               (nat (go_quot p 8) + 1) 1))"
proof -
  from go_quot_in_range [OF assms(2,3,4)]
  have "0 \<le> go_quot p 8" "go_quot p 8 < int (length self)" by simp_all
  from CommonBitsAddrF_capped [OF assms(1) this, of "const_fill b" 0]
  show ?thesis
    by (simp add: CommonBitsAddrByte_def const_fill_def split: prod.split)
qed

lemma capped_fill_pointwise_le:
  assumes "pos < length self" "i < length self"
  shows "fst (fill_loop (const_fill 0x00)
               (self[pos := (self ! pos AND (drop_bit s 0xff XOR 0xff)) OR (drop_bit s 0xff AND 0x00)])
               (pos + 1) c) ! i
         \<le> fst (fill_loop (const_fill 0xff)
               (self[pos := (self ! pos AND (drop_bit s 0xff XOR 0xff)) OR (drop_bit s 0xff AND 0xff)])
               (pos + 1) c) ! i"
proof -
  consider (before) "i < pos" | (at) "i = pos" | (after) "pos + 1 \<le> i" by arith
  then show ?thesis
  proof cases
    case before
    then show ?thesis by (simp add: fill_loop_before)
  next
    case at
    have "fst (fill_loop f (self[pos := v]) (pos + 1) c) ! pos = v" for f v
      using assms(1) by (simp add: fill_loop_before)
    then show ?thesis
      unfolding at by (simp only: capped_byte_le)
  next
    case after
    with assms show ?thesis
      by (simp add: fill_loop_from const_fill_def)
  qed
qed

lemma KeyRange_panics:
  assumes "k = min (proximity one other) proxLimit" "k \<le> - 8 \<or> int (length one * 8) \<le> k"
  shows "KeyRange one other proxLimit = Inl IndexOutOfRange"
proof -
  have kp: "k \<le> proximity one other" using assms(1) by simp
  have prox: "(if proximity one other \<ge> proxLimit then proxLimit else proximity one other) = k"
    using assms(1) by (simp add: min_def)
  have "CommonBitsAddrByte one other b k = Inl IndexOutOfRange" for b
    using CommonBitsAddrF_panics [OF kp assms(2)] by (simp add: CommonBitsAddrByte_def)
  then show ?thesis
    by (simp only: KeyRange_def Let_def prox sum.case)
qed

section \<open>Results and panics of RandomAddressAt and KeyRange\<close>

text \<open>Where \<open>RandomAddressAt\<close> returns, and what it returns for a negative order.\<close>

lemma RandomAddressAt_returns_iff:
  assumes "wf_Address self"
  shows "(\<exists>res. RandomAddressAt rnd n self prox = Inr res) \<longleftrightarrow> prox < 256"
proof (cases "prox < 256")
  case True
  show ?thesis
  proof (cases "0 \<le> prox")
    case nonneg: True
    from assms True have "prox < int (length self * 8)"
      by (simp add: wf_Address_def HashLength_def)
    with RandomAddressAt_nonneg [OF nonneg, of self rnd n] True show ?thesis by simp
  next
    case False
    with True show ?thesis by (simp add: RandomAddressAt_negative)
  qed
next
  case False
  with assms have "int (length self * 8) \<le> prox"
    by (simp add: wf_Address_def HashLength_def)
  then have "RandomAddressAt rnd n self prox = Inl IndexOutOfRange"
    by (rule RandomAddressAt_panics)
  with False show ?thesis by simp
qed

lemma RandomAddressAt_negative_bytes:
  assumes "wf_Address self" "prox < 0" "RandomAddressAt rnd n self prox = Inr (addr, n')"
  shows "addr ! 0 = self ! 0 \<and> (\<forall>k. 1 \<le> k \<and> k < 32 \<longrightarrow> addr ! k = rnd (n + (k - 1))) \<and>
         n' = n + 31"
proof -
  from assms have len: "length self = 32" by (simp add: wf_Address_def HashLength_def)
  from assms(2,3) have a: "addr = fst (fill_loop rnd self 1 n)"
    and c: "n' = snd (fill_loop rnd self 1 n)"
    by (simp_all add: RandomAddressAt_negative)
  have "addr ! 0 = self ! 0"
    unfolding a by (simp add: fill_loop_before)
  moreover have "addr ! k = rnd (n + (k - 1))" if "1 \<le> k" "k < 32" for k
    unfolding a using that len by (simp add: fill_loop_from)
  moreover have "n' = n + 31"
    unfolding c using len by (simp add: fill_loop_count)
  ultimately show ?thesis by blast
qed

lemma KeyRange_value:
  assumes "k = min (proximity one other) proxLimit" "- 8 < k" "k < int (length one * 8)"
    and "0 < length one"
  shows "KeyRange one other proxLimit =
         Inr (fst (fill_loop (const_fill 0x00)
                (one[nat (go_quot k 8) :=
                   (one ! nat (go_quot k 8) AND
                      (drop_bit (unat (word_of_int (go_rem k 8) :: byte)) 0xff XOR 0xff))
                   OR (drop_bit (unat (word_of_int (go_rem k 8) :: byte)) 0xff AND 0x00)])
                (nat (go_quot k 8) + 1) 1),
              fst (fill_loop (const_fill 0xff)
                (one[nat (go_quot k 8) :=
                   (one ! nat (go_quot k 8) AND
                      (drop_bit (unat (word_of_int (go_rem k 8) :: byte)) 0xff XOR 0xff))
                   OR (drop_bit (unat (word_of_int (go_rem k 8) :: byte)) 0xff AND 0xff)])
                (nat (go_quot k 8) + 1) 1))"
proof -
  have kp: "k \<le> proximity one other" using assms(1) by simp
  have prox: "(if proximity one other \<ge> proxLimit then proxLimit else proximity one other) = k"
    using assms(1) by (simp add: min_def)
  note r = CommonBitsAddrByte_capped [OF kp assms(2,3,4)]
  show ?thesis
    by (simp only: KeyRange_def Let_def prox r sum.case)
qed

text \<open>Where \<open>KeyRange\<close> returns a pair.\<close>

lemma KeyRange_returns_iff:
  assumes "wf_Address one" "wf_Address other"
  shows "(\<exists>res. KeyRange one other proxLimit = Inr res) \<longleftrightarrow>
         - 8 < min (proximity one other) proxLimit \<and> min (proximity one other) proxLimit < 256"
proof (cases "- 8 < min (proximity one other) proxLimit \<and> min (proximity one other) proxLimit < 256")
  case True
  with assms have "min (proximity one other) proxLimit < int (length one * 8)" "0 < length one"
    by (simp_all add: wf_Address_def HashLength_def)
  with KeyRange_value [OF refl, of one other proxLimit] True show ?thesis by simp
next
  case False
  with assms have "min (proximity one other) proxLimit \<le> - 8 \<or>
      int (length one * 8) \<le> min (proximity one other) proxLimit"
    by (auto simp add: wf_Address_def HashLength_def)
  with KeyRange_panics [OF refl, of one other proxLimit]
  have "KeyRange one other proxLimit = Inl IndexOutOfRange" by simp
  with False show ?thesis by simp
qed

lemma MarshalJSON_length: "length (MarshalJSON a) = 2 * length a + 2"
  by (induction a) (simp_all add: MarshalJSON_def Address_String_def)

section \<open>The claims\<close>

text \<open>
  C1. For every 32-byte reference address \<open>r\<close> and every \<open>prox\<close> with
  \<open>0 \<le> prox < 256\<close>, \<open>RandomAddressAt\<close> returns an address whose proximity order to
  \<open>r\<close> is exactly \<open>prox\<close>, whatever bytes the random source supplies.
\<close>

theorem RandomAddressAt_exact_proximity:
  assumes "wf_Address r" "0 \<le> prox" "prox < 256"
  shows "\<exists>addr n'. RandomAddressAt rnd n r prox = Inr (addr, n') \<and> wf_Address addr \<and>
                   proximity r addr = prox"
proof -
  let ?pos = "nat (prox div 8)" and ?tr = "nat (prox mod 8)"
  let ?new = "((r ! ?pos AND transbytea_loop ?tr 0 0) XOR push_bit (7 - ?tr) 1)
              OR (rnd n AND (transbytea_loop ?tr 0 0 XOR 255))"
  let ?res = "fill_loop rnd (r[?pos := ?new]) (?pos + 1) (n + 1)"
  from assms have len: "length r = 32" by (simp add: wf_Address_def HashLength_def)
  from assms len have ret: "RandomAddressAt rnd n r prox = Inr ?res"
    by (intro RandomAddressAt_nonneg) simp_all
  from assms have pos: "?pos < 32" by arith
  have tr: "?tr \<le> 7"
  proof -
    have "prox mod 8 < 8" by simp
    then show ?thesis by simp
  qed
  have wf: "wf_Address (fst ?res)"
    using assms by (simp add: wf_Address_def fill_loop_length)
  have same: "r ! k = fst ?res ! k" if "k < ?pos" for k
    using that by (simp add: fill_loop_before)
  have at: "fst ?res ! ?pos = ?new"
    using pos len by (simp add: fill_loop_before)
  have scan: "bit_scan (r ! ?pos XOR fst ?res ! ?pos) 0 = Some ?tr"
    unfolding at by (rule diverge_byte_scan [OF tr])
  have "proximity_from r (fst ?res) 0 = int (?pos * 8 + ?tr)"
    using pos len same scan by (intro proximity_from_at) simp_all
  also have "\<dots> = prox div 8 * 8 + prox mod 8"
    using assms by (simp add: pos_imp_zdiv_nonneg_iff)
  also have "\<dots> = prox"
    by simp
  finally have "proximity r (fst ?res) = prox"
    by (simp add: proximity_def)
  with ret wf show ?thesis
    by (intro exI [of _ "fst ?res"] exI [of _ "snd ?res"]) simp
qed

theorem RandomAddressAt_exact_proximity_witness:
  "wf_Address ex_ones \<and> (0 :: int) \<le> 13 \<and> (13 :: int) < 256 \<and>
   (\<exists>addr n'. RandomAddressAt (const_fill 0xfe) 0 ex_ones 13 = Inr (addr, n') \<and>
      wf_Address addr \<and> proximity ex_ones addr = 13)"
proof -
  have w: "wf_Address ex_ones"
    by (simp add: wf_Address_def ex_ones_def)
  from RandomAddressAt_exact_proximity [OF w, of 13 "const_fill 0xfe" 0] w
  show ?thesis by simp
qed

text \<open>
  C2, as amended. For all 32-byte addresses \<open>one\<close>, \<open>other\<close> and every \<open>proxLimit\<close>
  such that \<open>k = min (proximity one other) proxLimit\<close> lies in \<open>-8 < k < 256\<close>,
  \<open>KeyRange\<close> returns \<open>(start, stop)\<close>; the leading \<open>k\<close> bits of \<open>start\<close> and of
  \<open>stop\<close> are those of \<open>one\<close> (none for \<open>k \<le> 0\<close>), and \<open>start \<le> stop\<close> as
  big-endian unsigned byte sequences, lexicographically and as numbers.
\<close>

theorem KeyRange_containment:
  assumes "wf_Address one" "wf_Address other"
    and "k = min (proximity one other) proxLimit" and "- 8 < k" and "k < 256"
  shows "\<exists>start stop. KeyRange one other proxLimit = Inr (start, stop) \<and>
           wf_Address start \<and> wf_Address stop \<and>
           leading_bits k start = leading_bits k one \<and>
           leading_bits k stop = leading_bits k one \<and>
           bytes_le start stop \<and> be_nat start \<le> be_nat stop"
proof -
  let ?pos = "nat (go_quot k 8)" and ?s = "unat (word_of_int (go_rem k 8) :: byte)"
  let ?new = "\<lambda>b. (one ! ?pos AND (drop_bit ?s 0xff XOR 0xff)) OR (drop_bit ?s 0xff AND b)"
  let ?res = "\<lambda>b. fst (fill_loop (const_fill b) (one[?pos := ?new b]) (?pos + 1) 1)"
  from assms have len: "length one = 32" by (simp add: wf_Address_def HashLength_def)
  have kl: "k < int (length one * 8)" using assms(5) len by simp
  have ret: "KeyRange one other proxLimit = Inr (?res 0x00, ?res 0xff)"
    by (rule KeyRange_value [OF assms(3,4) kl]) (simp add: len)
  from go_quot_in_range [OF assms(4) kl] len have pos: "?pos < length one" by auto
  have wf: "wf_Address (?res b)" for b
    using assms(1) by (simp add: wf_Address_def fill_loop_length)
  have le: "bytes_le (?res 0x00) (?res 0xff)"
  proof (rule bytes_le_pointwise)
    show "length (?res 0x00) = length (?res 0xff)"
      by (simp add: fill_loop_length)
    show "\<forall>i < length (?res 0x00). ?res 0x00 ! i \<le> ?res 0xff ! i"
      using capped_fill_pointwise_le [OF pos] by (simp add: fill_loop_length)
  qed
  have lead: "leading_bits k (?res b) = leading_bits k one" for b
  proof (cases "0 < k")
    case False
    then show ?thesis by (simp add: leading_bits_def)
  next
    case True
    then have e: "?pos = nat k div 8" "?s = nat k mod 8"
      using assms(5)
      by (simp_all add: go_quot_nonneg go_rem_nonneg unat_byte_of_int nat_div_distrib nat_mod_distrib)
    have "addr_bit (?res b) n' = addr_bit one n'" if "n' < nat k" for n'
      unfolding e using that pos [unfolded e] by (rule capped_leading_bit)
    then show ?thesis by (simp add: leading_bits_def)
  qed
  have "be_nat (?res 0x00) \<le> be_nat (?res 0xff)"
    using le by (simp add: bytes_le_iff_be_nat fill_loop_length)
  with ret wf le lead show ?thesis by blast
qed

theorem KeyRange_containment_witness:
  "wf_Address ex_ones \<and> wf_Address zero_Address \<and>
   (7 :: int) = min (proximity ex_ones zero_Address) 20 \<and> (- 8 :: int) < 7 \<and> (7 :: int) < 256 \<and>
   (\<exists>start stop. KeyRange ex_ones zero_Address 20 = Inr (start, stop) \<and>
      wf_Address start \<and> wf_Address stop \<and>
      leading_bits 7 start = leading_bits 7 ex_ones \<and>
      leading_bits 7 stop = leading_bits 7 ex_ones \<and>
      bytes_le start stop \<and> be_nat start \<le> be_nat stop)"
proof -
  have w1: "wf_Address ex_ones" and w0: "wf_Address zero_Address"
    by (simp_all add: wf_Address_def ex_ones_def zero_Address_def)
  have p: "proximity ex_ones zero_Address = 7"
    by code_simp
  then have k: "(7 :: int) = min (proximity ex_ones zero_Address) 20"
    by simp
  have "\<exists>start stop. KeyRange ex_ones zero_Address 20 = Inr (start, stop) \<and>
      wf_Address start \<and> wf_Address stop \<and>
      leading_bits 7 start = leading_bits 7 ex_ones \<and>
      leading_bits 7 stop = leading_bits 7 ex_ones \<and>
      bytes_le start stop \<and> be_nat start \<le> be_nat stop"
    by (rule KeyRange_containment [OF w1 w0 k]) simp_all
  with w1 w0 k show ?thesis
    by (intro conjI) simp_all
qed

text \<open>
  The claim C2 as written, for every integer \<open>proxLimit\<close>, fails where \<open>KeyRange\<close>
  returns no pair: with \<open>one = other\<close> and \<open>proxLimit = 256\<close> the index \<open>pos\<close> is 32.
\<close>

theorem KeyRange_no_range_at_256:
  "min (proximity zero_Address zero_Address) 256 = 256 \<and>
   KeyRange zero_Address zero_Address 256 = Inl IndexOutOfRange"
  by code_simp

text \<open>
  C3. The claim is that \<open>proximity\<close>, \<open>ProxCmp\<close>, \<open>RandomAddressAt\<close> and \<open>KeyRange\<close>
  never index out of bounds for arguments in \<open>[0, 256]\<close>. At 256 the code computes
  \<open>pos = 32\<close> and indexes \<open>addr[32]\<close>: both calls named in the claim panic.
\<close>

theorem index_out_of_range_at_256:
  "RandomAddressAt (const_fill 7) 0 zero_Address 256 = Inl IndexOutOfRange \<and>
   KeyRange zero_Address zero_Address 256 = Inl IndexOutOfRange"
  by code_simp

text \<open>
  C4. The claim is that for \<open>prox < 0\<close> every byte of the result comes from the random
  source. The loop starts at \<open>pos + 1 = 1\<close>, so byte 0 stays that of \<open>self\<close>: with the
  same random stream two references give different results, and \<open>RandomAddress\<close>
  always starts with the zero byte of \<open>Address{}\<close>.
\<close>

theorem RandomAddressAt_negative_keeps_byte_0:
  "RandomAddressAt (const_fill 7) 0 ex_ones (- 1) = Inr (1 # replicate 31 7, 31) \<and>
   RandomAddressAt (const_fill 7) 0 zero_Address (- 1) = Inr (0 # replicate 31 7, 31) \<and>
   RandomAddress (const_fill 7) 0 = Inr (0 # replicate 31 7, 31)"
  by code_simp

text \<open>
  C5, as amended. In \<open>CommonBitsAddrF self other f n p\<close> on 32-byte addresses: when
  \<open>p\<close> is above \<open>proximity self other\<close> (the cap does not bind; \<open>self \<noteq> other\<close>), the
  bit of the result at position \<open>proximity self other\<close>, right after the shared prefix,
  is flipped relative to \<open>self\<close>; when \<open>0 \<le> p' \<le> proximity self other\<close> and
  \<open>p' < 256\<close> (the cap binds or is met), nothing is flipped: the bit at position \<open>p'\<close>
  is the bit of the first fill byte at the same place in its byte.
\<close>

theorem CommonBitsAddrF_boundary_bit:
  assumes "wf_Address self" "wf_Address other"
  shows "(proximity self other < p \<and> self \<noteq> other \<longrightarrow>
            result_bit (CommonBitsAddrF self other f n p) (nat (proximity self other))
            = Some (\<not> addr_bit self (nat (proximity self other)))) \<and>
         (0 \<le> p' \<and> p' \<le> proximity self other \<and> p' < 256 \<longrightarrow>
            result_bit (CommonBitsAddrF self other f n p') (nat p')
            = Some (bit (f n) (7 - nat p' mod 8)))"
proof (intro conjI impI)
  assume "proximity self other < p \<and> self \<noteq> other"
  with assms show "result_bit (CommonBitsAddrF self other f n p) (nat (proximity self other))
      = Some (\<not> addr_bit self (nat (proximity self other)))"
    by (simp add: CommonBitsAddrF_flip)
next
  assume "0 \<le> p' \<and> p' \<le> proximity self other \<and> p' < 256"
  with assms show "result_bit (CommonBitsAddrF self other f n p') (nat p')
      = Some (bit (f n) (7 - nat p' mod 8))"
    by (simp add: CommonBitsAddrF_fill)
qed

theorem CommonBitsAddrF_boundary_bit_witness:
  "wf_Address ex_ones \<and> wf_Address zero_Address \<and>
   proximity ex_ones zero_Address < 20 \<and> ex_ones \<noteq> zero_Address \<and>
   result_bit (CommonBitsAddrF ex_ones zero_Address (const_fill 0) 0 20)
     (nat (proximity ex_ones zero_Address))
     = Some (\<not> addr_bit ex_ones (nat (proximity ex_ones zero_Address))) \<and>
   (0 :: int) \<le> 3 \<and> 3 \<le> proximity ex_ones zero_Address \<and> (3 :: int) < 256 \<and>
   result_bit (CommonBitsAddrF ex_ones zero_Address (const_fill 0) 0 3) (nat 3)
     = Some (bit (const_fill 0 0) (7 - nat 3 mod 8))"
proof -
  have w1: "wf_Address ex_ones" and w0: "wf_Address zero_Address"
    by (simp_all add: wf_Address_def ex_ones_def zero_Address_def)
  have p: "proximity ex_ones zero_Address = 7"
    by code_simp
  have ne: "ex_ones \<noteq> zero_Address"
    by (simp add: ex_ones_def zero_Address_def HashLength_def)
  from CommonBitsAddrF_boundary_bit [OF w1 w0, of 20 "const_fill 0" 0 3] w1 w0 p ne
  show ?thesis by simp
qed

text \<open>
  The claim C5 as written has the two cases the other way round. With the cap binding
  (\<open>p = 0\<close> below the proximity 256) and a zero fill byte the bit at position \<open>p\<close> is
  that of the reference, not flipped; with the cap not binding (\<open>p = 5\<close> above the
  proximity 0) the bit after the shared prefix is flipped.
\<close>

theorem CommonBitsAddrF_flip_counterexample:
  "0 < proximity zero_Address zero_Address \<and>
   result_bit (CommonBitsAddrF zero_Address zero_Address (const_fill 0) 0 0) 0
     = Some (addr_bit zero_Address 0) \<and>
   \<not> 5 < proximity zero_Address ex_first_bit \<and>
   result_bit (CommonBitsAddrF zero_Address ex_first_bit (const_fill 0xff) 0 5) 0
     = Some (\<not> addr_bit zero_Address 0)"
  by code_simp

text \<open>
  C6, as amended. \<open>UnmarshalJSON\<close> reports no error: on every input of at least two
  bytes it drops the first and the last byte, hands the rest to \<open>HexToHash\<close> unchecked,
  stores what that returns and returns \<open>nil\<close>, whatever the length and the characters
  of the input.
\<close>

theorem UnmarshalJSON_returns_nil:
  "2 \<le> length val \<Longrightarrow>
   UnmarshalJSON HexToHash a val = Inr (HexToHash (take (length val - 2) (drop 1 val)), None)"
  by (simp add: UnmarshalJSON_def)

theorem UnmarshalJSON_returns_nil_witness:
  \<open>2 \<le> length ''"12"'' \<and>
   UnmarshalJSON HexToHash_zero ex_ones ''"12"'' = Inr (HexToHash_zero ''12'', None)\<close>
  using UnmarshalJSON_returns_nil [of \<open>''"12"''\<close> HexToHash_zero ex_ones]
  by simp

text \<open>
  The claim C6 as written, that a string of the wrong length or with a character that
  is no hexadecimal digit is refused with \<open>InvalidEncoding\<close>, fails: the input below
  has neither the length of a rendered address (66 with the quotes) nor hexadecimal
  digits, and the returned error is \<open>nil\<close>.
\<close>

theorem UnmarshalJSON_accepts_malformed:
  \<open>length ''"xyz"'' \<noteq> length (MarshalJSON ex_ones) \<and>
   UnmarshalJSON HexToHash_zero ex_ones ''"xyz"'' = Inr (zero_Address, None) \<and>
   snd (projr (UnmarshalJSON HexToHash_zero ex_ones ''"xyz"'')) \<noteq> Some InvalidEncoding\<close>
  by (simp add: UnmarshalJSON_def HexToHash_zero_def MarshalJSON_length ex_ones_def HashLength_def)

text \<open>
  C7. For all 32-byte addresses \<open>target\<close>, \<open>a\<close>, \<open>b\<close>, \<open>ProxCmp\<close> returns one of
  \<open>-1\<close> (\<open>a\<close> closer), \<open>0\<close> (equal), \<open>1\<close> (\<open>b\<close> closer), and comparing an
  address with itself returns \<open>0\<close>.
\<close>

theorem ProxCmp_trichotomy:
  "wf_Address target \<Longrightarrow> wf_Address a \<Longrightarrow> wf_Address b \<Longrightarrow>
   (ProxCmp target a b = - 1 \<or> ProxCmp target a b = 0 \<or> ProxCmp target a b = 1) \<and>
   ProxCmp target a a = 0"
  using ProxCmp_from_range [of target a b 0]
  by (simp add: ProxCmp_def ProxCmp_from_refl)

theorem ProxCmp_trichotomy_witness:
  "wf_Address ex_last_bit \<and> wf_Address zero_Address \<and>
   (ProxCmp ex_last_bit zero_Address ex_last_bit = - 1 \<or>
    ProxCmp ex_last_bit zero_Address ex_last_bit = 0 \<or>
    ProxCmp ex_last_bit zero_Address ex_last_bit = 1) \<and>
   ProxCmp ex_last_bit zero_Address zero_Address = 0"
  using ProxCmp_trichotomy [of ex_last_bit zero_Address ex_last_bit]
  by (simp add: wf_Address_def ex_last_bit_def zero_Address_def)

text \<open>
  C8. For all 32-byte addresses \<open>a\<close> and \<open>b\<close>, \<open>proximity a b = proximity b a\<close>.
\<close>

theorem proximity_symmetric:
  "wf_Address a \<Longrightarrow> wf_Address b \<Longrightarrow> proximity a b = proximity b a"
  by (simp add: proximity_def wf_Address_def proximity_from_sym)

theorem proximity_symmetric_witness:
  "wf_Address zero_Address \<and> wf_Address ex_last_bit \<and>
   proximity zero_Address ex_last_bit = proximity ex_last_bit zero_Address"
  using proximity_symmetric [of zero_Address ex_last_bit]
  by (simp add: wf_Address_def ex_last_bit_def zero_Address_def)

text \<open>
  C9. For all 32-byte addresses \<open>a\<close> and \<open>b\<close>, if \<open>proximity a b\<close> is the full width
  \<open>N*8 = 256\<close> then \<open>a = b\<close>.
\<close>

theorem proximity_full_only_self:
  assumes "wf_Address a" "wf_Address b" "proximity a b = 256"
  shows "a = b"
proof (rule nth_equalityI)
  show "length a = length b" using assms by (simp add: wf_Address_def)
next
  fix k assume "k < length a"
  moreover from assms have "proximity_from a b 0 = int (length a * 8)"
    by (simp add: proximity_def wf_Address_def HashLength_def)
  ultimately show "a ! k = b ! k"
    using proximity_from_full [of a b 0 k] by simp
qed

theorem proximity_full_only_self_witness:
  "wf_Address zero_Address \<and> proximity zero_Address zero_Address = 256 \<and>
   zero_Address = zero_Address"
proof -
  have w: "wf_Address zero_Address"
    by (simp add: wf_Address_def zero_Address_def)
  have p: "proximity zero_Address zero_Address = 256"
    by code_simp
  from proximity_full_only_self [OF w w p] w p show ?thesis by simp
qed

text \<open>
  C10. For all 32-byte addresses \<open>target\<close>, \<open>a\<close>, \<open>b\<close>: \<open>ProxCmp target a b = 0\<close> if
  and only if \<open>a = b\<close>.
\<close>

theorem ProxCmp_equal_iff:
  assumes "wf_Address target" "wf_Address a" "wf_Address b"
  shows "ProxCmp target a b = 0 \<longleftrightarrow> a = b"
proof
  assume "ProxCmp target a b = 0"
  then have "\<forall>k. k < length target \<longrightarrow> a ! k = b ! k"
    by (simp add: ProxCmp_def ProxCmp_from_zero_iff)
  with assms show "a = b"
    by (intro nth_equalityI) (simp_all add: wf_Address_def)
next
  assume "a = b"
  then show "ProxCmp target a b = 0"
    by (simp add: ProxCmp_def ProxCmp_from_refl)
qed

theorem ProxCmp_equal_iff_witness:
  "wf_Address zero_Address \<and> wf_Address ex_last_bit \<and>
   (ProxCmp zero_Address ex_last_bit zero_Address = 0 \<longleftrightarrow> ex_last_bit = zero_Address)"
  using ProxCmp_equal_iff [of zero_Address ex_last_bit zero_Address]
  by (simp add: wf_Address_def ex_last_bit_def zero_Address_def)

end
